theory Spec2Isabelle
  imports Main "HOL-Library.Word"
begin

section \<open>The page-table simulator \<^verbatim>\<open>ptsim.c\<close>\<close>

text \<open>
  The program keeps two globals: the simulated RAM \<^verbatim>\<open>unsigned char mem[MEM_SIZE]\<close> and
  the counter \<^verbatim>\<open>int free_page_count\<close>. A C \<^verbatim>\<open>int\<close> is a 32-bit word read in two's
  complement (comparisons are the signed ones, \<^verbatim>\<open>>>\<close> is the arithmetic shift, \<open>+\<close> wraps
  around), an \<^verbatim>\<open>unsigned char\<close> is an 8-bit word; the conversions between them are
  \<open>ucast\<close>. The array is a store from indices to bytes. C gives no meaning to an access
  outside \<^verbatim>\<open>0 .. MEM_SIZE-1\<close>: every access goes through \<open>mem_read\<close> or \<open>mem_write\<close>, which
  return the error \<open>OutOfBounds\<close> there, and every function propagates it. What the program
  prints is collected, in order, in the field \<open>out\<close>.
\<close>

type_synonym byte = "8 word"
type_synonym cint = "32 word"

definition MEM_SIZE :: cint where "MEM_SIZE = 16384"
definition PAGE_SIZE :: cint where "PAGE_SIZE = 256"
definition PAGE_COUNT :: cint where "PAGE_COUNT = 64"
definition PAGE_SHIFT :: nat where "PAGE_SHIFT = 8"

datatype error = OutOfBounds cint | Usage

datatype message =
    CouldNotAllocate cint
  | StoreLine cint cint cint cint
  | LoadLine cint cint cint byte
  | FreeMapHeader
  | FreeMapChar char
  | Newline
  | TableHeader cint
  | TableLine cint cint

record state =
  mem :: "cint \<Rightarrow> byte"
  free_page_count :: cint
  out :: "message list"

definition in_bounds :: "cint \<Rightarrow> bool" where
  "in_bounds a \<longleftrightarrow> 0 \<le>s a \<and> a <s MEM_SIZE"

definition mem_read :: "cint \<Rightarrow> state \<Rightarrow> error + byte" where
  "mem_read a s = (if in_bounds a then Inr (mem s a) else Inl (OutOfBounds a))"

definition mem_write :: "cint \<Rightarrow> byte \<Rightarrow> state \<Rightarrow> error + state" where
  "mem_write a v s =
     (if in_bounds a then Inr (s\<lparr>mem := (mem s)(a := v)\<rparr>) else Inl (OutOfBounds a))"

definition print :: "message \<Rightarrow> state \<Rightarrow> state" where
  "print m s = s\<lparr>out := out s @ [m]\<rparr>"

text \<open>\<^verbatim>\<open>get_address\<close>: \<^verbatim>\<open>(page << PAGE_SHIFT) | offset\<close>.\<close>

definition get_address :: "cint \<Rightarrow> cint \<Rightarrow> cint" where
  "get_address page offset = or (push_bit PAGE_SHIFT page) offset"

text \<open>\<^verbatim>\<open>get_page_table\<close>: \<^verbatim>\<open>mem[PAGE_COUNT + proc_num]\<close>, converted to \<^verbatim>\<open>int\<close>.\<close>

definition get_page_table :: "cint \<Rightarrow> state \<Rightarrow> error + cint" where
  "get_page_table proc_num s =
     (case mem_read (PAGE_COUNT + proc_num) s of
        Inl e \<Rightarrow> Inl e
      | Inr b \<Rightarrow> Inr (ucast b))"

text \<open>
  \<^verbatim>\<open>initialize_mem\<close>: \<^verbatim>\<open>mem[0] = 1\<close>, then the loop
  \<^verbatim>\<open>for (int i = 1; i > MEM_SIZE; i++) mem[i] = 0;\<close> with the condition as the source has it.
\<close>

function initialize_mem_loop :: "cint \<Rightarrow> state \<Rightarrow> error + state" where
  "initialize_mem_loop i s =
     (if MEM_SIZE <s i then
        (case mem_write i 0 s of
           Inl e \<Rightarrow> Inl e
         | Inr s' \<Rightarrow> initialize_mem_loop (i + 1) s')
      else Inr s)"
  by pat_completeness auto
termination
  by (relation "{}") (auto simp: mem_write_def in_bounds_def word_sless_alt split: if_splits)

declare initialize_mem_loop.simps [simp del]

definition initialize_mem :: "state \<Rightarrow> error + state" where
  "initialize_mem s =
     (case mem_write 0 1 s of
        Inl e \<Rightarrow> Inl e
      | Inr s' \<Rightarrow> initialize_mem_loop 1 s')"

text \<open>
  \<^verbatim>\<open>find_page\<close>: the loop variable is an \<^verbatim>\<open>unsigned char\<close>, compared with \<^verbatim>\<open>PAGE_COUNT\<close>
  after promotion to \<^verbatim>\<open>int\<close>. The result is the page number, or \<^verbatim>\<open>0xff\<close>.
\<close>

function find_page_loop :: "byte \<Rightarrow> state \<Rightarrow> error + (byte \<times> state)" where
  "find_page_loop i s =
     (if ucast i <s PAGE_COUNT then
        (case mem_read (ucast i) s of
           Inl e \<Rightarrow> Inl e
         | Inr b \<Rightarrow>
             if b = 0 then
               (case mem_write (ucast i) 1 s of
                  Inl e \<Rightarrow> Inl e
                | Inr s' \<Rightarrow> Inr (i, s'\<lparr>free_page_count := free_page_count s' - 1\<rparr>))
             else find_page_loop (i + 1) s)
      else Inr (0xff, s))"
  by pat_completeness auto
termination
proof (relation "measure (\<lambda>(i, s). 64 - unat i)")
  fix i :: byte and s :: state
  assume c: "ucast i <s PAGE_COUNT"
  have "uint i < 2 ^ 8" using uint_lt2p [of i] by simp
  then have "uint i < 2 ^ 31" by simp
  moreover have "- (2 ^ 31) \<le> uint i" by (rule order_trans [of _ 0]) simp_all
  ultimately have "signed_take_bit 31 (uint i) = uint i"
    by (rule signed_take_bit_int_eq_self [rotated])
  then have "sint (ucast i :: cint) = uint i" by (simp add: signed_ucast_eq)
  with c have "uint i < 64" by (simp add: PAGE_COUNT_def word_sless_alt)
  then have "int (unat i) < 64" by simp
  then have i: "unat i < 64" by linarith
  then have "unat i + unat (1 :: byte) < 2 ^ LENGTH(8)" by simp
  then have "unat (i + 1) = unat i + unat (1 :: byte)" by (rule unat_add_lem [THEN iffD1])
  with i show "((i + 1, s), (i, s)) \<in> measure (\<lambda>(i, s). 64 - unat i)" by simp
qed simp

declare find_page_loop.simps [simp del]

definition find_page :: "state \<Rightarrow> error + (byte \<times> state)" where
  "find_page s = find_page_loop 1 s"

text \<open>
  \<^verbatim>\<open>new_process\<close>. The page numbers returned by \<^verbatim>\<open>find_page\<close> are kept in \<^verbatim>\<open>int\<close>
  variables and truncated to a byte again when stored; the failure value \<^verbatim>\<open>0xff\<close> is
  not tested for.
\<close>

function new_process_loop :: "cint \<Rightarrow> cint \<Rightarrow> cint \<Rightarrow> state \<Rightarrow> error + state" where
  "new_process_loop proc_page_table_num page_count virtual_page_num s =
     (if virtual_page_num <s page_count then
        (case find_page s of
           Inl e \<Rightarrow> Inl e
         | Inr (proc_data_page_num, s1) \<Rightarrow>
             (case mem_write (get_address proc_page_table_num virtual_page_num)
                     (ucast (ucast proc_data_page_num :: cint)) s1 of
                Inl e \<Rightarrow> Inl e
              | Inr s2 \<Rightarrow>
                  new_process_loop proc_page_table_num page_count (virtual_page_num + 1) s2))
      else Inr s)"
  by pat_completeness auto
termination
proof (relation "measure (\<lambda>(pt, page_count, v, s). nat (sint page_count - sint v))")
  fix pt page_count v :: cint and s s2 :: state
  assume "v <s page_count"
  then have lt: "sint v < sint page_count" by (simp add: word_sless_alt)
  moreover have "sint page_count < 2 ^ 31" using sint_lt [of page_count] by simp
  moreover have "- (2 ^ 31) \<le> sint v" using sint_ge [of v] by simp
  ultimately have "signed_take_bit 31 (sint v + 1) = sint v + 1"
    by (simp add: signed_take_bit_int_eq_self)
  then have step: "sint (v + 1) = sint v + 1" by (simp add: sint_word_ariths)
  from lt step show "((pt, page_count, v + 1, s2), (pt, page_count, v, s))
      \<in> measure (\<lambda>(pt, page_count, v, s). nat (sint page_count - sint v))"
    by simp
qed simp

declare new_process_loop.simps [simp del]

definition new_process :: "cint \<Rightarrow> cint \<Rightarrow> state \<Rightarrow> error + state" where
  "new_process proc_num page_count s =
     (if free_page_count s <s page_count then
        Inr (print (CouldNotAllocate proc_num) s)
      else
        (case find_page s of
           Inl e \<Rightarrow> Inl e
         | Inr (p, s1) \<Rightarrow>
             let proc_page_table_num = (ucast p :: cint) in
             (case mem_write (PAGE_COUNT + proc_num) (ucast proc_page_table_num) s1 of
                Inl e \<Rightarrow> Inl e
              | Inr s2 \<Rightarrow> new_process_loop proc_page_table_num page_count 0 s2)))"

text \<open>\<^verbatim>\<open>deallocate_page\<close>: \<^verbatim>\<open>mem[page_num] = 0\<close>; the counter is not touched.\<close>

definition deallocate_page :: "cint \<Rightarrow> state \<Rightarrow> error + state" where
  "deallocate_page page_num s = mem_write page_num 0 s"

text \<open>
  \<^verbatim>\<open>kill\<close>: the loop runs over \<^verbatim>\<open>offset < PAGE_SIZE\<close>. The source reads
  \<^verbatim>\<open>mem[data_page_address]\<close> in the test and again for \<^verbatim>\<open>data_page_num\<close>, with nothing
  written in between; the model reads it once.
\<close>

function kill_loop :: "cint \<Rightarrow> cint \<Rightarrow> state \<Rightarrow> error + state" where
  "kill_loop process_page_table offset s =
     (if offset <s PAGE_SIZE then
        let data_page_address = get_address process_page_table offset in
        (case mem_read data_page_address s of
           Inl e \<Rightarrow> Inl e
         | Inr b \<Rightarrow>
             if b \<noteq> 0 then
               let data_page_num = (ucast b :: cint) in
               (case deallocate_page data_page_num s of
                  Inl e \<Rightarrow> Inl e
                | Inr s1 \<Rightarrow>
                    (case mem_write data_page_address 0 s1 of
                       Inl e \<Rightarrow> Inl e
                     | Inr s2 \<Rightarrow> kill_loop process_page_table (offset + 1) s2))
             else kill_loop process_page_table (offset + 1) s)
      else Inr s)"
  by pat_completeness auto
termination
proof (relation "measure (\<lambda>(pt, offset, s). nat (sint PAGE_SIZE - sint offset))")
  fix pt offset :: cint and s s2 :: state
  assume "offset <s PAGE_SIZE"
  then have lt: "sint offset < sint PAGE_SIZE" by (simp add: word_sless_alt)
  moreover have "sint PAGE_SIZE < 2 ^ 31" using sint_lt [of PAGE_SIZE] by simp
  moreover have "- (2 ^ 31) \<le> sint offset" using sint_ge [of offset] by simp
  ultimately have "signed_take_bit 31 (sint offset + 1) = sint offset + 1"
    by (simp add: signed_take_bit_int_eq_self)
  then have step: "sint (offset + 1) = sint offset + 1" by (simp add: sint_word_ariths)
  from lt step show "((pt, offset + 1, s2), (pt, offset, s))
      \<in> measure (\<lambda>(pt, offset, s). nat (sint PAGE_SIZE - sint offset))"
    by simp
  from lt step show "((pt, offset + 1, s), (pt, offset, s))
      \<in> measure (\<lambda>(pt, offset, s). nat (sint PAGE_SIZE - sint offset))"
    by simp
qed simp

declare kill_loop.simps [simp del]

definition kill :: "cint \<Rightarrow> state \<Rightarrow> error + state" where
  "kill proc_num s =
     (case get_page_table proc_num s of
        Inl e \<Rightarrow> Inl e
      | Inr process_page_table \<Rightarrow>
          (case kill_loop process_page_table 0 s of
             Inl e \<Rightarrow> Inl e
           | Inr s1 \<Rightarrow> deallocate_page process_page_table s1))"

text \<open>\<^verbatim>\<open>get_physical_address\<close>, \<^verbatim>\<open>store_value\<close> and \<^verbatim>\<open>read_value\<close>.\<close>

definition get_physical_address :: "cint \<Rightarrow> cint \<Rightarrow> state \<Rightarrow> error + cint" where
  "get_physical_address process_num virtual_address s =
     (let virtual_page = signed_drop_bit 8 virtual_address in
      case get_page_table process_num s of
        Inl e \<Rightarrow> Inl e
      | Inr pt \<Rightarrow>
          let page_table_address = get_address pt 0 in
          (case mem_read (page_table_address + virtual_page) s of
             Inl e \<Rightarrow> Inl e
           | Inr b \<Rightarrow>
               let physical_page_num = (ucast b :: cint);
                   offset = and virtual_address 255
               in Inr (get_address physical_page_num offset)))"

definition store_value :: "cint \<Rightarrow> cint \<Rightarrow> cint \<Rightarrow> state \<Rightarrow> error + state" where
  "store_value proc_num virtual_address val s =
     (case get_physical_address proc_num virtual_address s of
        Inl e \<Rightarrow> Inl e
      | Inr address \<Rightarrow>
          (case mem_write address (ucast val) s of
             Inl e \<Rightarrow> Inl e
           | Inr s1 \<Rightarrow> Inr (print (StoreLine proc_num virtual_address address val) s1)))"

definition read_value :: "cint \<Rightarrow> cint \<Rightarrow> state \<Rightarrow> error + (byte \<times> state)" where
  "read_value proc_num virtual_address s =
     (case get_physical_address proc_num virtual_address s of
        Inl e \<Rightarrow> Inl e
      | Inr address \<Rightarrow>
          (case mem_read address s of
             Inl e \<Rightarrow> Inl e
           | Inr b \<Rightarrow> Inr (b, print (LoadLine proc_num virtual_address address b) s)))"

text \<open>
  \<^verbatim>\<open>print_page_free_map\<close> and \<^verbatim>\<open>print_page_table\<close> only read the store. The first prints
  one character for each of the 64 bitmap bytes, with a newline after every 16th; the
  second prints the non-zero entries of a page table among the virtual pages
  \<open>0 .. PAGE_COUNT-1\<close>.
\<close>

function print_page_free_map_loop :: "cint \<Rightarrow> state \<Rightarrow> error + state" where
  "print_page_free_map_loop i s =
     (if i <s 64 then
        let addr = get_address 0 i in
        (case mem_read addr s of
           Inl e \<Rightarrow> Inl e
         | Inr b \<Rightarrow>
             let s1 = print (FreeMapChar (if b = 0 then CHR ''.'' else CHR ''#'')) s;
                 s2 = (if (i + 1) mod 16 = 0 then print Newline s1 else s1)
             in print_page_free_map_loop (i + 1) s2)
      else Inr s)"
  by pat_completeness auto
termination
proof (relation "measure (\<lambda>(i, s). nat (sint (64 :: cint) - sint i))")
  fix i :: cint and s s2 :: state
  assume "i <s (64 :: cint)"
  then have lt: "sint i < sint (64 :: cint)" by (simp add: word_sless_alt)
  moreover have "sint (64 :: cint) < 2 ^ 31" using sint_lt [of "(64 :: cint)"] by simp
  moreover have "- (2 ^ 31) \<le> sint i" using sint_ge [of i] by simp
  ultimately have "signed_take_bit 31 (sint i + 1) = sint i + 1"
    by (simp add: signed_take_bit_int_eq_self)
  then have step: "sint (i + 1) = sint i + 1" by (simp add: sint_word_ariths)
  from lt step show "((i + 1, s2), (i, s)) \<in> measure (\<lambda>(i, s). nat (sint (64 :: cint) - sint i))"
    by simp
qed simp

declare print_page_free_map_loop.simps [simp del]

definition print_page_free_map :: "state \<Rightarrow> error + state" where
  "print_page_free_map s = print_page_free_map_loop 0 (print FreeMapHeader s)"

function print_page_table_loop :: "cint \<Rightarrow> cint \<Rightarrow> state \<Rightarrow> error + state" where
  "print_page_table_loop page_table i s =
     (if i <s PAGE_COUNT then
        let addr = get_address page_table i in
        (case mem_read addr s of
           Inl e \<Rightarrow> Inl e
         | Inr b \<Rightarrow>
             let page = (ucast b :: cint) in
             if page \<noteq> 0 then
               print_page_table_loop page_table (i + 1) (print (TableLine i page) s)
             else print_page_table_loop page_table (i + 1) s)
      else Inr s)"
  by pat_completeness auto
termination
proof (relation "measure (\<lambda>(pt, i, s). nat (sint PAGE_COUNT - sint i))")
  fix pt i :: cint and s s2 :: state
  assume "i <s PAGE_COUNT"
  then have lt: "sint i < sint PAGE_COUNT" by (simp add: word_sless_alt)
  moreover have "sint PAGE_COUNT < 2 ^ 31" using sint_lt [of PAGE_COUNT] by simp
  moreover have "- (2 ^ 31) \<le> sint i" using sint_ge [of i] by simp
  ultimately have "signed_take_bit 31 (sint i + 1) = sint i + 1"
    by (simp add: signed_take_bit_int_eq_self)
  then have step: "sint (i + 1) = sint i + 1" by (simp add: sint_word_ariths)
  from lt step show "((pt, i + 1, s2), (pt, i, s))
      \<in> measure (\<lambda>(pt, i, s). nat (sint PAGE_COUNT - sint i))"
    by simp
  from lt step show "((pt, i + 1, s), (pt, i, s))
      \<in> measure (\<lambda>(pt, i, s). nat (sint PAGE_COUNT - sint i))"
    by simp
qed simp

declare print_page_table_loop.simps [simp del]

definition print_page_table :: "cint \<Rightarrow> state \<Rightarrow> error + state" where
  "print_page_table proc_num s =
     (let s1 = print (TableHeader proc_num) s in
      case get_page_table proc_num s1 of
        Inl e \<Rightarrow> Inl e
      | Inr page_table \<Rightarrow> print_page_table_loop page_table 0 s1)"

text \<open>
  The globals as the C runtime sets them up (static storage is zeroed,
  \<^verbatim>\<open>free_page_count = PAGE_COUNT - 1\<close>), and \<^verbatim>\<open>main\<close>. The command line is taken as the list
  of its commands, with their arguments already converted by \<^verbatim>\<open>atoi\<close>. Without a command
  \<^verbatim>\<open>main\<close> prints its usage line and returns 1; otherwise it calls \<^verbatim>\<open>initialize_mem\<close> and
  runs the commands from left to right.
\<close>

definition startup :: state where
  "startup = \<lparr>mem = (\<lambda>a. 0), free_page_count = PAGE_COUNT - 1, out = []\<rparr>"

datatype command =
    NP cint cint
  | PFM
  | PPT cint
  | KP cint
  | SB cint cint cint
  | LB cint cint

fun exec :: "command \<Rightarrow> state \<Rightarrow> error + state" where
  "exec (NP proc_num pages) s = new_process proc_num pages s"
| "exec PFM s = print_page_free_map s"
| "exec (PPT proc_num) s = print_page_table proc_num s"
| "exec (KP proc_num) s = kill proc_num s"
| "exec (SB proc_num virt_add val) s = store_value proc_num virt_add val s"
| "exec (LB proc_num virt_addr) s =
     (case read_value proc_num virt_addr s of Inl e \<Rightarrow> Inl e | Inr (b, s') \<Rightarrow> Inr s')"

fun run :: "command list \<Rightarrow> state \<Rightarrow> error + state" where
  "run [] s = Inr s"
| "run (c # cs) s = (case exec c s of Inl e \<Rightarrow> Inl e | Inr s' \<Rightarrow> run cs s')"

definition main :: "command list \<Rightarrow> error + state" where
  "main cs =
     (if cs = [] then Inl Usage
      else case initialize_mem startup of Inl e \<Rightarrow> Inl e | Inr s \<Rightarrow> run cs s)"

text \<open>
  The free pages of a state, as the bitmap records them: the page numbers \<open>1 .. 63\<close> whose
  bitmap byte \<^verbatim>\<open>mem[i]\<close> is 0, in ascending order. The claims about creating a process use
  it to say how many pages the bitmap still offers.
\<close>

definition free_pages :: "state \<Rightarrow> byte list" where
  "free_pages s = filter (\<lambda>i. mem s (ucast i) = 0) (map of_nat [1..<64])"

text \<open>
  The store after the loop of \<^verbatim>\<open>new_process\<close> has taken the pages \<open>ds\<close> for the virtual
  pages \<open>m, m+1, ...\<close> of the page table \<open>pt\<close>: each page is marked used in the bitmap and
  entered in the table. It is used to state what the loop computes.
\<close>

fun loop_store :: "cint \<Rightarrow> nat \<Rightarrow> byte list \<Rightarrow> (cint \<Rightarrow> byte) \<Rightarrow> (cint \<Rightarrow> byte)" where
  "loop_store pt m [] f = f"
| "loop_store pt m (d # ds) f =
     loop_store pt (Suc m) ds (f(ucast d := 1, get_address pt (of_nat m) := d))"

section \<open>Facts about the machine integers\<close>

lemma sint_ucast_byte: "sint (ucast (b :: byte) :: cint) = uint b"
proof -
  have "uint b < 2 ^ 8" using uint_lt2p [of b] by simp
  then have "uint b < 2 ^ 31" by simp
  moreover have "- (2 ^ 31) \<le> uint b" by (rule order_trans [of _ 0]) simp_all
  ultimately have "signed_take_bit 31 (uint b) = uint b"
    by (rule signed_take_bit_int_eq_self [rotated])
  then show ?thesis by (simp add: signed_ucast_eq)
qed

lemma sint_eq_unat: "unat (a :: cint) < 2 ^ 31 \<Longrightarrow> sint a = int (unat a)"
proof -
  assume "unat a < 2 ^ 31"
  then have "uint a < 2 ^ 31" by (simp add: uint_nat del: of_nat_unat)
  moreover have "- (2 ^ 31) \<le> uint a" by (rule order_trans [of _ 0]) simp_all
  ultimately have "signed_take_bit 31 (uint a) = uint a"
    by (rule signed_take_bit_int_eq_self [rotated])
  then show ?thesis by (simp add: sint_uint)
qed

lemma sint_neg_unat: "\<not> unat (a :: cint) < 2 ^ 31 \<Longrightarrow> sint a < 0"
proof -
  assume "\<not> unat a < 2 ^ 31"
  then have lo: "2 ^ 31 \<le> uint a" by (simp add: uint_nat del: of_nat_unat)
  have hi: "uint a < 2 ^ 32" using uint_lt2p [of a] by simp
  from lo hi have "uint a div 2 ^ 31 = 1" by simp
  then have "bit (uint a) 31" by (simp add: bit_iff_odd)
  then show ?thesis by (simp add: sint_uint signed_take_bit_negative_iff)
qed

lemma in_bounds_unat: "in_bounds a \<longleftrightarrow> unat a < 16384"
proof (cases "unat a < 2 ^ 31")
  case True
  then show ?thesis
    by (simp add: in_bounds_def MEM_SIZE_def word_sle_eq word_sless_alt sint_eq_unat
        del: of_nat_unat)
next
  case False
  then have "sint a < 0" by (rule sint_neg_unat)
  with False show ?thesis
    by (simp add: in_bounds_def word_sle_eq)
qed

lemma sless_unat:
  "unat (a :: cint) < 2 ^ 31 \<Longrightarrow> unat (b :: cint) < 2 ^ 31 \<Longrightarrow> a <s b \<longleftrightarrow> unat a < unat b"
  by (simp add: word_sless_alt sint_eq_unat del: of_nat_unat)

lemma or_shifted_nat: "b < 256 \<Longrightarrow> or (push_bit 8 a) (b :: nat) = a * 256 + b"
proof -
  assume "b < 256"
  then have b: "take_bit 8 b = b" by (simp add: take_bit_nat_eq_self)
  have "push_bit 8 a + take_bit 8 b = or (push_bit 8 a) (take_bit 8 b)"
    by (rule disjunctive_add_eq_or) (simp add: bit_eq_iff bit_simps)
  then show ?thesis by (simp add: b push_bit_eq_mult)
qed

lemma get_address_unat:
  "unat page < 256 \<Longrightarrow> unat off < 256 \<Longrightarrow>
   unat (get_address page off) = unat page * 256 + unat off"
proof -
  assume p: "unat page < 256" and o: "unat off < 256"
  from p have "push_bit 8 (unat page) < 2 ^ 32" by (simp add: push_bit_eq_mult)
  then have "take_bit 32 (push_bit 8 (unat page)) = push_bit 8 (unat page)"
    by (simp add: take_bit_nat_eq_self)
  then have "unat (get_address page off) = or (push_bit 8 (unat page)) (unat off)"
    by (simp add: get_address_def PAGE_SHIFT_def unsigned_or_eq unsigned_push_bit_eq)
  with o show ?thesis by (simp add: or_shifted_nat)
qed

lemma unat_ucast_byte: "unat (ucast (b :: byte) :: cint) = unat b"
  by (simp add: unsigned_ucast_eq take_bit_nat_eq_self unsigned_less [THEN less_trans])

lemma ucast_ucast_byte: "(ucast (ucast (b :: byte) :: cint) :: byte) = b"
  by (simp add: ucast_up_ucast_id is_up)

lemma unat_byte_less: "unat (b :: byte) < 256"
  using unsigned_less [of b] by simp

section \<open>The scan of \<^verbatim>\<open>find_page\<close>\<close>

lemma unat_of_nat_byte: "n < 256 \<Longrightarrow> unat (of_nat n :: byte) = n"
  by (simp add: unat_of_nat)

lemma find_page_loop_scan:
  "n \<le> 64 \<Longrightarrow>
   find_page_loop (of_nat n) s =
     (case filter (\<lambda>i. mem s (ucast i) = 0) (map of_nat [n..<64]) of
        [] \<Rightarrow> Inr (0xff, s)
      | i # _ \<Rightarrow> Inr (i, s\<lparr>mem := (mem s)(ucast i := 1),
                               free_page_count := free_page_count s - 1\<rparr>))"
proof (induction "64 - n" arbitrary: n)
  case 0
  then have n: "n = 64" by simp
  show ?case
    by (subst find_page_loop.simps)
       (simp add: n PAGE_COUNT_def word_sless_alt)
next
  case (Suc k)
  then have n: "n < 64" by simp
  then have u: "unat (of_nat n :: byte) = n" by (simp add: unat_of_nat_byte)
  have cond: "ucast (of_nat n :: byte) <s PAGE_COUNT"
    using n by (simp add: PAGE_COUNT_def word_sless_alt sint_ucast_byte uint_nat u del: of_nat_unat)
  have ib: "in_bounds (ucast (of_nat n :: byte))"
    using n by (simp add: in_bounds_unat unat_ucast_byte u)
  have upt: "[n..<64] = n # [Suc n..<64]" using n by (simp add: upt_conv_Cons)
  have next_i: "(of_nat n :: byte) + 1 = of_nat (Suc n)" by simp
  have IH: "find_page_loop (of_nat (Suc n)) s =
     (case filter (\<lambda>i. mem s (ucast i) = 0) (map of_nat [Suc n..<64]) of
        [] \<Rightarrow> Inr (0xff, s)
      | i # _ \<Rightarrow> Inr (i, s\<lparr>mem := (mem s)(ucast i := 1),
                               free_page_count := free_page_count s - 1\<rparr>))"
    using Suc.hyps(2) n by (intro Suc.hyps(1)) simp_all
  show ?case
  proof (cases "mem s (ucast (of_nat n :: byte)) = 0")
    case True
    then show ?thesis
      by (subst find_page_loop.simps)
         (simp add: cond ib upt mem_read_def mem_write_def del: of_nat_Suc)
  next
    case False
    then show ?thesis
      by (subst find_page_loop.simps)
         (simp add: cond ib upt mem_read_def next_i IH del: of_nat_Suc)
  qed
qed

lemma find_page_free_pages:
  "find_page s =
     (case free_pages s of
        [] \<Rightarrow> Inr (0xff, s)
      | i # _ \<Rightarrow> Inr (i, s\<lparr>mem := (mem s)(ucast i := 1),
                               free_page_count := free_page_count s - 1\<rparr>))"
  using find_page_loop_scan [of 1 s] by (simp add: find_page_def free_pages_def)

text \<open>The list \<open>free_pages\<close>: its members, its order, its first element.\<close>

lemma page_numbers_set: "j \<in> set (map of_nat [1..<64] :: byte list) \<longleftrightarrow> 1 \<le> unat j \<and> unat j < 64"
proof
  assume "j \<in> set (map of_nat [1..<64] :: byte list)"
  then obtain n where n: "j = of_nat n" "1 \<le> n" "n < 64" by auto
  then have "unat j = n" by (simp add: unat_of_nat_byte)
  with n show "1 \<le> unat j \<and> unat j < 64" by simp
next
  assume "1 \<le> unat j \<and> unat j < 64"
  then have "unat j \<in> set [1..<64]" by simp
  then have "(of_nat (unat j) :: byte) \<in> of_nat ` set [1..<64]" by (rule imageI)
  then show "j \<in> set (map of_nat [1..<64] :: byte list)" by simp
qed

lemma free_pages_set:
  "j \<in> set (free_pages s) \<longleftrightarrow> 1 \<le> unat j \<and> unat j < 64 \<and> mem s (ucast j) = 0"
  unfolding free_pages_def set_filter using page_numbers_set [of j] by blast

lemma page_numbers_sorted: "sorted_wrt (<) (map of_nat [1..<64] :: byte list)"
proof -
  have "sorted_wrt (\<lambda>a b. (of_nat a :: byte) < of_nat b) [1..<64]"
  proof (rule sorted_wrt_mono_rel [of _ "(<)"])
    fix a b :: nat
    assume "a \<in> set [1..<64]" "b \<in> set [1..<64]" "a < b"
    then show "(of_nat a :: byte) < of_nat b"
      by (simp add: word_less_nat_alt unat_of_nat_byte)
  qed simp
  then show ?thesis by (simp add: sorted_wrt_map)
qed

lemma free_pages_sorted: "sorted_wrt (<) (free_pages s)"
  unfolding free_pages_def by (rule sorted_wrt_filter) (rule page_numbers_sorted)

lemma free_pages_distinct: "distinct (free_pages s)"
  using free_pages_sorted [of s] by (simp add: strict_sorted_iff)

lemma free_pages_Nil:
  "free_pages s = [] \<Longrightarrow> 1 \<le> unat (j :: byte) \<Longrightarrow> unat j < 64 \<Longrightarrow> mem s (ucast j) \<noteq> 0"
  using free_pages_set [of j s] by auto

lemma free_pages_Cons_lowest:
  assumes "free_pages s = i # rest" "1 \<le> unat (j :: byte)" "unat j < unat i"
  shows "mem s (ucast j) \<noteq> 0"
proof
  assume z: "mem s (ucast j) = 0"
  have "i \<in> set (free_pages s)" using assms(1) by simp
  then have "unat i < 64" by (simp only: free_pages_set)
  with assms(2,3) z have "1 \<le> unat j \<and> unat j < 64 \<and> mem s (ucast j) = 0" by simp
  then have "j \<in> set (free_pages s)" by (rule free_pages_set [THEN iffD2])
  then have "j = i \<or> j \<in> set rest" using assms(1) by simp
  moreover have "\<forall>x \<in> set rest. i < x" using free_pages_sorted [of s] assms(1) by simp
  ultimately have "unat i \<le> unat j" by (auto simp: word_less_nat_alt)
  with assms(3) show False by simp
qed

text \<open>Unfolding every function of the program, to run it on a concrete command line.\<close>

lemmas run_simps = main_def startup_def initialize_mem_def initialize_mem_loop.simps
  mem_write_def mem_read_def in_bounds_def MEM_SIZE_def PAGE_SIZE_def PAGE_COUNT_def PAGE_SHIFT_def
  word_sless_alt word_sle_eq get_address_def get_page_table_def find_page_def find_page_loop.simps
  new_process_def new_process_loop.simps deallocate_page_def kill_def kill_loop.simps
  get_physical_address_def store_value_def read_value_def print_def
  print_page_free_map_def print_page_free_map_loop.simps
  print_page_table_def print_page_table_loop.simps Let_def

section \<open>Initialisation\<close>

lemma initialize_mem_loop_exit: "initialize_mem_loop 1 s = Inr s"
  by (subst initialize_mem_loop.simps) (simp add: MEM_SIZE_def word_sless_alt)

lemma boot: "initialize_mem startup = Inr (startup\<lparr>mem := (mem startup)(0 := 1)\<rparr>)"
  by (simp add: initialize_mem_def mem_write_def in_bounds_unat initialize_mem_loop_exit)

text \<open>
  Claim C10. \<^verbatim>\<open>initialize_mem\<close> sets \<^verbatim>\<open>mem[0]\<close> to 1 and writes nothing else: the
  condition \<^verbatim>\<open>i > MEM_SIZE\<close> of its loop is false at \<^verbatim>\<open>i = 1\<close>, so the loop returns its
  state as it is, and every other byte keeps the value it had before the call.
\<close>

theorem initialize_mem_writes_only_byte_0:
  "initialize_mem s = Inr (s\<lparr>mem := (mem s)(0 := 1)\<rparr>) \<and> initialize_mem_loop 1 s = Inr s"
  by (simp add: initialize_mem_def mem_write_def in_bounds_unat initialize_mem_loop_exit)

section \<open>Creating a process\<close>

text \<open>
  Claim C3. When \<^verbatim>\<open>free_page_count < page_count\<close>, \<^verbatim>\<open>new_process\<close> returns at once: it
  prints its message and leaves the whole store (so the bitmap and the process table) and
  \<^verbatim>\<open>free_page_count\<close> as they were. The witness is the state after \<^verbatim>\<open>initialize_mem\<close>, with
  63 free pages, and the call \<^verbatim>\<open>new_process(1, 64)\<close>.
\<close>

theorem new_process_refuses:
  "free_page_count s <s page_count \<Longrightarrow>
   \<exists>s'. new_process proc_num page_count s = Inr s' \<and>
        mem s' = mem s \<and> free_page_count s' = free_page_count s \<and>
        out s' = out s @ [CouldNotAllocate proc_num]"
  by (simp add: new_process_def print_def)

theorem new_process_refuses_witness:
  "initialize_mem startup = Inr (startup\<lparr>mem := (mem startup)(0 := 1)\<rparr>) \<and>
   free_page_count (startup\<lparr>mem := (mem startup)(0 := 1)\<rparr>) = 63 \<and>
   free_page_count (startup\<lparr>mem := (mem startup)(0 := 1)\<rparr>) <s 64 \<and>
   (\<exists>s'. main [NP 1 64] = Inr s' \<and>
         mem s' = (mem startup)(0 := 1) \<and> free_page_count s' = 63 \<and>
         out s' = [CouldNotAllocate 1])"
proof -
  let ?s0 = "startup\<lparr>mem := (mem startup)(0 := 1)\<rparr>"
  have c: "free_page_count ?s0 = 63" by (simp add: startup_def PAGE_COUNT_def)
  have h: "free_page_count ?s0 <s 64" by (simp add: c word_sless_alt)
  have o: "out ?s0 = []" by (simp add: startup_def)
  from new_process_refuses [OF h, of 1] obtain s' where
    "new_process 1 64 ?s0 = Inr s'" "mem s' = mem ?s0" "free_page_count s' = free_page_count ?s0"
    "out s' = out ?s0 @ [CouldNotAllocate 1]"
    by blast
  then have "main [NP 1 64] = Inr s' \<and> mem s' = (mem startup)(0 := 1) \<and>
      free_page_count s' = 63 \<and> out s' = [CouldNotAllocate 1]"
    using c o by (simp add: main_def boot)
  then have "\<exists>s'. main [NP 1 64] = Inr s' \<and> mem s' = (mem startup)(0 := 1) \<and>
      free_page_count s' = 63 \<and> out s' = [CouldNotAllocate 1]" ..
  moreover have "initialize_mem startup = Inr ?s0" by (rule boot)
  ultimately show ?thesis using c h by blast
qed

section \<open>Allocating a page\<close>

text \<open>
  Claim C4. In every state \<^verbatim>\<open>find_page\<close> returns the lowest page number \<open>i\<close> with
  \<open>1 \<le> i < 64\<close> whose bitmap byte is 0, sets that byte to 1 and decrements
  \<^verbatim>\<open>free_page_count\<close>; when no such page exists it returns \<^verbatim>\<open>0xff\<close> and the state is
  unchanged. Index 0 is not looked at: nothing in the result depends on \<^verbatim>\<open>mem[0]\<close>, and the
  page returned is never 0. The witness is the first allocation after \<^verbatim>\<open>initialize_mem\<close>.
\<close>

theorem find_page_lowest_free:
  "(\<exists>i. 1 \<le> i \<and> i < 64 \<and> mem s (ucast i) = 0 \<and>
        (\<forall>j. 1 \<le> j \<and> j < i \<longrightarrow> mem s (ucast j) \<noteq> 0) \<and>
        find_page s = Inr (i, s\<lparr>mem := (mem s)(ucast i := 1),
                                  free_page_count := free_page_count s - 1\<rparr>)) \<or>
   ((\<forall>j :: byte. 1 \<le> j \<and> j < 64 \<longrightarrow> mem s (ucast j) \<noteq> 0) \<and>
    find_page s = Inr (0xff, s))"
proof (cases "free_pages s")
  case Nil
  then have "find_page s = Inr (0xff, s)" by (simp add: find_page_free_pages)
  moreover have "\<forall>j :: byte. 1 \<le> j \<and> j < 64 \<longrightarrow> mem s (ucast j) \<noteq> 0"
    using free_pages_Nil [OF Nil] by (simp add: word_le_nat_alt word_less_nat_alt)
  ultimately show ?thesis by blast
next
  case (Cons i rest)
  then have "i \<in> set (free_pages s)" by simp
  then have "1 \<le> unat i \<and> unat i < 64 \<and> mem s (ucast i) = 0"
    by (simp only: free_pages_set)
  then have i: "1 \<le> i" "i < 64" "mem s (ucast i) = 0"
    by (simp_all add: word_le_nat_alt word_less_nat_alt)
  have "\<forall>j. 1 \<le> j \<and> j < i \<longrightarrow> mem s (ucast j) \<noteq> 0"
    using free_pages_Cons_lowest [OF Cons] by (simp add: word_le_nat_alt word_less_nat_alt)
  moreover have "find_page s = Inr (i, s\<lparr>mem := (mem s)(ucast i := 1),
                                  free_page_count := free_page_count s - 1\<rparr>)"
    by (simp add: find_page_free_pages Cons)
  ultimately show ?thesis using i by blast
qed

theorem find_page_lowest_free_witness:
  "mem (startup\<lparr>mem := (mem startup)(0 := 1)\<rparr>) (ucast (1 :: byte)) = 0 \<and>
   find_page (startup\<lparr>mem := (mem startup)(0 := 1)\<rparr>) =
     Inr (1, startup\<lparr>mem := (mem startup)(0 := 1, 1 := 1), free_page_count := 62\<rparr>)"
proof -
  let ?s0 = "startup\<lparr>mem := (mem startup)(0 := 1)\<rparr>"
  have m: "mem ?s0 (ucast (1 :: byte)) = 0" by (simp add: startup_def)
  have c: "free_page_count ?s0 - 1 = 62" by (simp add: startup_def PAGE_COUNT_def)
  from find_page_lowest_free [of ?s0]
  have "find_page ?s0 = Inr (1, ?s0\<lparr>mem := (mem ?s0)(ucast (1 :: byte) := 1),
                                       free_page_count := free_page_count ?s0 - 1\<rparr>)"
  proof (elim disjE exE conjE)
    fix i :: byte
    assume i: "1 \<le> i"
      and low: "\<forall>j. 1 \<le> j \<and> j < i \<longrightarrow> mem ?s0 (ucast j) \<noteq> 0"
      and r: "find_page ?s0 = Inr (i, ?s0\<lparr>mem := (mem ?s0)(ucast i := 1),
                                       free_page_count := free_page_count ?s0 - 1\<rparr>)"
    from low m have "\<not> 1 < i" by blast
    with i have "i = 1" by simp
    with r show ?thesis by simp
  next
    assume "\<forall>j :: byte. 1 \<le> j \<and> j < 64 \<longrightarrow> mem ?s0 (ucast j) \<noteq> 0"
    then have "(1 :: byte) \<le> 1 \<and> (1 :: byte) < 64 \<longrightarrow> mem ?s0 (ucast (1 :: byte)) \<noteq> 0"
      by (rule spec)
    then have "mem ?s0 (ucast (1 :: byte)) \<noteq> 0" by simp
    with m show ?thesis by simp
  qed
  then show ?thesis using m c by simp
qed

section \<open>Address translation\<close>

lemma low_bits_range: "0 \<le>s and (va :: cint) 255 \<and> and va 255 <s PAGE_SIZE"
proof -
  have "and va 255 \<le> 255" by (rule word_and_le1)
  then have u: "unat (and va 255) \<le> 255" by (simp add: word_le_nat_alt)
  then have "sint (and va 255) = int (unat (and va 255))" by (intro sint_eq_unat) simp
  with u show ?thesis
    by (simp add: word_sle_eq word_sless_alt PAGE_SIZE_def del: of_nat_unat)
qed

text \<open>
  Claim C6. Whenever the two reads of \<^verbatim>\<open>get_physical_address\<close> are inside the array, its
  result is \<^verbatim>\<open>(page_table[virtual_address >> PAGE_SHIFT] << PAGE_SHIFT) | (virtual_address & (PAGE_SIZE-1))\<close>,
  where \<open>page_table\<close> starts at the page recorded for the process. No test is made on the
  entry: when it is 0 the result is the offset alone, an address between 0 and
  \<^verbatim>\<open>PAGE_SIZE-1\<close>, inside page 0. The witness translates a mapped and an unmapped address
  of the process created by \<^verbatim>\<open>np 2 1\<close>.
\<close>

theorem get_physical_address_formula:
  assumes "in_bounds (PAGE_COUNT + process_num)"
    and "in_bounds (push_bit PAGE_SHIFT (ucast (mem s (PAGE_COUNT + process_num)))
                    + signed_drop_bit PAGE_SHIFT virtual_address)"
  shows "let page_table = push_bit PAGE_SHIFT (ucast (mem s (PAGE_COUNT + process_num)));
             entry = mem s (page_table + signed_drop_bit PAGE_SHIFT virtual_address);
             offset = and virtual_address (PAGE_SIZE - 1)
         in get_physical_address process_num virtual_address s
              = Inr (or (push_bit PAGE_SHIFT (ucast entry)) offset) \<and>
            (entry = 0 \<longrightarrow>
               get_physical_address process_num virtual_address s = Inr offset \<and>
               0 \<le>s offset \<and> offset <s PAGE_SIZE)"
  using assms low_bits_range [of virtual_address]
  by (simp add: get_physical_address_def get_page_table_def mem_read_def get_address_def
      PAGE_SHIFT_def PAGE_SIZE_def Let_def)

theorem get_physical_address_formula_witness:
  "case main [NP 2 1] of
     Inl e \<Rightarrow> False
   | Inr s \<Rightarrow>
       in_bounds (PAGE_COUNT + 2) \<and>
       in_bounds (push_bit PAGE_SHIFT (ucast (mem s (PAGE_COUNT + 2))) + signed_drop_bit PAGE_SHIFT 5) \<and>
       in_bounds (push_bit PAGE_SHIFT (ucast (mem s (PAGE_COUNT + 2))) + signed_drop_bit PAGE_SHIFT 261) \<and>
       get_physical_address 2 5 s = Inr 517 \<and>
       get_physical_address 2 261 s = Inr 5"
proof -
  let ?s1 = "startup\<lparr>mem := (mem startup)(0 := 1, 1 := 1, 66 := 1, 2 := 1, 256 := 2),
                       free_page_count := 61\<rparr>"
  have run: "main [NP 2 1] = Inr ?s1" by (simp add: run_simps)
  have slot: "in_bounds (PAGE_COUNT + 2)"
    by (simp add: in_bounds_unat PAGE_COUNT_def)
  have e5: "in_bounds (push_bit PAGE_SHIFT (ucast (mem ?s1 (PAGE_COUNT + 2))) + signed_drop_bit PAGE_SHIFT 5)"
    by (simp add: PAGE_COUNT_def startup_def in_bounds_unat PAGE_SHIFT_def)
  have e261: "in_bounds (push_bit PAGE_SHIFT (ucast (mem ?s1 (PAGE_COUNT + 2))) + signed_drop_bit PAGE_SHIFT 261)"
    by (simp add: PAGE_COUNT_def startup_def in_bounds_unat PAGE_SHIFT_def)
  have "get_physical_address 2 5 ?s1 = Inr 517"
    using get_physical_address_formula [OF slot e5]
    by (simp add: PAGE_COUNT_def startup_def Let_def PAGE_SHIFT_def PAGE_SIZE_def)
  moreover have "get_physical_address 2 261 ?s1 = Inr 5"
    using get_physical_address_formula [OF slot e261]
    by (simp add: PAGE_COUNT_def startup_def Let_def PAGE_SHIFT_def PAGE_SIZE_def)
  ultimately show ?thesis using slot e5 e261 by (simp add: run)
qed

section \<open>The loop of \<^verbatim>\<open>new_process\<close>\<close>

lemma ucast_byte_inj: "(ucast (i :: byte) :: cint) = ucast (j :: byte) \<longleftrightarrow> i = j"
proof
  assume "(ucast i :: cint) = ucast j"
  then have "(ucast (ucast i :: cint) :: byte) = ucast (ucast j :: cint)" by simp
  then show "i = j" by (simp only: ucast_ucast_byte)
qed simp

lemma unat_of_nat_cint: "m < 2 ^ 32 \<Longrightarrow> unat (of_nat m :: cint) = m"
  by (simp add: unat_of_nat)

lemma free_pages_write_outside:
  assumes "\<not> (1 \<le> unat a \<and> unat a < 64)"
  shows "free_pages (s\<lparr>mem := (mem s)(a := v)\<rparr>) = free_pages s"
proof -
  have "\<And>i :: byte. i \<in> set (map of_nat [1..<64]) \<Longrightarrow> ucast i \<noteq> a"
  proof
    fix i :: byte
    assume "i \<in> set (map of_nat [1..<64])" and "ucast i = a"
    then have "1 \<le> unat i \<and> unat i < 64" "unat a = unat i"
      by (simp_all only: page_numbers_set unat_ucast_byte [symmetric])
    with assms show False by simp
  qed
  then show ?thesis
    unfolding free_pages_def by (intro filter_cong) simp_all
qed

lemma free_pages_counter [simp]:
  "free_pages (s\<lparr>free_page_count := c\<rparr>) = free_pages s"
  by (simp add: free_pages_def)

lemma free_pages_take:
  assumes "free_pages s = d # rest"
  shows "free_pages (s\<lparr>mem := (mem s)(ucast d := 1)\<rparr>) = rest"
proof -
  have "free_pages (s\<lparr>mem := (mem s)(ucast d := 1)\<rparr>) = filter (\<lambda>i. i \<noteq> d) (free_pages s)"
    unfolding free_pages_def filter_filter
    by (intro filter_cong) (auto simp: ucast_byte_inj)
  moreover have "d \<notin> set rest" using free_pages_distinct [of s] assms by simp
  then have "filter (\<lambda>i. i \<noteq> d) rest = rest" by (intro filter_True) auto
  ultimately show ?thesis using assms by simp
qed

lemma entry_address_unat:
  "unat (p :: byte) < 64 \<Longrightarrow> m < 256 \<Longrightarrow>
   unat (get_address (ucast p) (of_nat m)) = unat p * 256 + m"
  by (simp add: get_address_unat unat_ucast_byte unat_of_nat_cint)

lemma new_process_loop_step:
  assumes p: "1 \<le> unat (p :: byte)" "unat p < 64"
    and fp: "free_pages s = d # rest"
    and m: "m < 256" "m < unat k" "unat k < 2 ^ 31"
  shows "new_process_loop (ucast p) k (of_nat m) s =
         new_process_loop (ucast p) k (of_nat (Suc m))
           (s\<lparr>mem := (mem s)(ucast d := 1, get_address (ucast p) (of_nat m) := d),
              free_page_count := free_page_count s - 1\<rparr>)"
proof -
  have um: "unat (of_nat m :: cint) = m" using m(1) by (simp add: unat_of_nat_cint)
  have cond: "(of_nat m :: cint) <s k" using m by (simp add: sless_unat um)
  have ib: "in_bounds (get_address (ucast p) (of_nat m))"
    using p m(1) by (simp add: in_bounds_unat entry_address_unat)
  have next_m: "(of_nat m :: cint) + 1 = of_nat (Suc m)" by simp
  have swap: "\<And>f c. s\<lparr>free_page_count := c, mem := f\<rparr> = s\<lparr>mem := f, free_page_count := c\<rparr>"
    by (cases s) simp
  show ?thesis
    by (subst new_process_loop.simps)
       (simp add: cond find_page_free_pages fp mem_write_def ib ucast_ucast_byte next_m swap
          del: of_nat_Suc)
qed

lemma new_process_loop_prefix:
  assumes "1 \<le> unat (p :: byte)" "unat p < 64"
    and "free_pages s = ds @ rest"
    and "m + length ds \<le> 256" "m + length ds \<le> unat k" "unat k < 2 ^ 31"
  shows "new_process_loop (ucast p) k (of_nat m) s =
         new_process_loop (ucast p) k (of_nat (m + length ds))
           (s\<lparr>mem := loop_store (ucast p) m ds (mem s),
              free_page_count := free_page_count s - of_nat (length ds)\<rparr>)"
  using assms
proof (induction ds arbitrary: m s)
  case Nil
  then show ?case by simp
next
  case (Cons d ds)
  let ?ga = "get_address (ucast p) (of_nat m)"
  let ?s2 = "s\<lparr>mem := (mem s)(ucast d := 1, ?ga := d),
               free_page_count := free_page_count s - 1\<rparr>"
  have m: "m < 256" "m < unat k" using Cons.prems by simp_all
  have fp: "free_pages s = d # (ds @ rest)" using Cons.prems by simp
  have step: "new_process_loop (ucast p) k (of_nat m) s =
              new_process_loop (ucast p) k (of_nat (Suc m)) ?s2"
    using Cons.prems(1,2) fp m Cons.prems(6) by (rule new_process_loop_step)
  have "unat ?ga = unat p * 256 + m"
    using Cons.prems(2) m(1) by (rule entry_address_unat)
  then have out: "\<not> (1 \<le> unat ?ga \<and> unat ?ga < 64)" using Cons.prems(1) by simp
  have "free_pages (s\<lparr>mem := (mem s)(ucast d := 1)\<rparr>) = ds @ rest"
    using fp by (rule free_pages_take)
  then have fp2: "free_pages ?s2 = ds @ rest"
    using free_pages_write_outside [OF out, of "s\<lparr>mem := (mem s)(ucast d := 1)\<rparr>" d]
    by simp
  have IH: "new_process_loop (ucast p) k (of_nat (Suc m)) ?s2 =
      new_process_loop (ucast p) k (of_nat (Suc m + length ds))
        (?s2\<lparr>mem := loop_store (ucast p) (Suc m) ds (mem ?s2),
              free_page_count := free_page_count ?s2 - of_nat (length ds)\<rparr>)"
    using Cons.prems by (intro Cons.IH fp2) simp_all
  show ?case
    unfolding step IH by (simp add: algebra_simps)
qed

lemma loop_store_frame:
  "a \<notin> ucast ` set ds \<Longrightarrow>
   a \<notin> (\<lambda>i. get_address pt (of_nat i)) ` {m ..< m + length ds} \<Longrightarrow>
   loop_store pt m ds f a = f a"
proof (induction ds arbitrary: m f)
  case Nil
  then show ?case by simp
next
  case (Cons d ds)
  have "{Suc m ..< Suc m + length ds} \<subseteq> {m ..< m + length (d # ds)}" by auto
  with Cons.prems(2)
  have "a \<notin> (\<lambda>i. get_address pt (of_nat i)) ` {Suc m ..< Suc m + length ds}" by blast
  moreover have "a \<notin> ucast ` set ds" using Cons.prems(1) by auto
  ultimately have "loop_store pt (Suc m) ds (f(ucast d := 1, get_address pt (of_nat m) := d)) a =
      (f(ucast d := 1, get_address pt (of_nat m) := d)) a"
    by (intro Cons.IH)
  moreover have "a \<noteq> ucast d" using Cons.prems(1) by auto
  moreover have "m \<in> {m ..< m + length (d # ds)}" by simp
  then have "a \<noteq> get_address pt (of_nat m)" using Cons.prems(2) by blast
  ultimately show ?case by simp
qed

lemma entry_address_inj:
  assumes "unat (p :: byte) < 64" "unat (q :: byte) < 64" "m < 256" "n < 256"
    and "get_address (ucast p) (of_nat m) = get_address (ucast q) (of_nat n)"
  shows "p = q \<and> m = n"
proof -
  have "unat (get_address (ucast p) (of_nat m)) = unat p * 256 + m"
    using assms(1,3) by (rule entry_address_unat)
  moreover have "unat (get_address (ucast q) (of_nat n)) = unat q * 256 + n"
    using assms(2,4) by (rule entry_address_unat)
  ultimately have eq: "unat p * 256 + m = unat q * 256 + n"
    by (simp only: assms(5))
  then have "(unat p * 256 + m) mod 256 = (unat q * 256 + n) mod 256" by (rule arg_cong)
  with assms(3,4) have mn: "m = n" by simp
  with eq have "unat p = unat q" by simp
  then have "p = q" by (rule word_unat_eq_iff [THEN iffD2])
  with mn show ?thesis by simp
qed

lemma entry_address_not_low:
  assumes "1 \<le> unat (p :: byte)" "unat p < 64" "m < 256" "unat a < 256"
  shows "a \<noteq> get_address (ucast p) (of_nat m)"
proof
  assume "a = get_address (ucast p) (of_nat m)"
  then have "unat a = unat p * 256 + m" using assms(2,3) by (simp add: entry_address_unat)
  with assms(1,4) show False by simp
qed

lemma loop_store_entry:
  assumes "1 \<le> unat (p :: byte)" "unat p < 64" "m + length ds \<le> 256" "i < length ds"
  shows "loop_store (ucast p) m ds f (get_address (ucast p) (of_nat (m + i))) = ds ! i"
  using assms(3,4)
proof (induction ds arbitrary: m f i)
  case Nil
  then show ?case by simp
next
  case (Cons d ds)
  show ?case
  proof (cases i)
    case 0
    let ?a = "get_address (ucast p) (of_nat m)"
    have "?a \<notin> ucast ` set ds"
    proof
      assume "?a \<in> ucast ` set ds"
      then obtain e :: byte where "?a = ucast e" by blast
      moreover have "unat (ucast e :: cint) < 256" by (simp add: unat_ucast_byte unat_byte_less)
      moreover have "m < 256" using Cons.prems by simp
      ultimately show False
        using entry_address_not_low [OF assms(1,2), of m "ucast e"] by simp
    qed
    moreover have "?a \<notin> (\<lambda>i. get_address (ucast p) (of_nat i)) ` {Suc m ..< Suc m + length ds}"
    proof
      assume "?a \<in> (\<lambda>i. get_address (ucast p) (of_nat i)) ` {Suc m ..< Suc m + length ds}"
      then obtain n where n: "Suc m \<le> n" "n < Suc m + length ds"
          "?a = get_address (ucast p) (of_nat n)" by auto
      moreover have "m < 256" "n < 256" using Cons.prems n by simp_all
      ultimately have "m = n" using entry_address_inj [OF assms(2) assms(2)] by blast
      with n show False by simp
    qed
    ultimately have "loop_store (ucast p) (Suc m) ds (f(ucast d := 1, ?a := d)) ?a =
        (f(ucast d := 1, ?a := d)) ?a"
      by (rule loop_store_frame)
    with 0 show ?thesis by simp
  next
    case (Suc j)
    have "loop_store (ucast p) (Suc m) ds (f(ucast d := 1, get_address (ucast p) (of_nat m) := d))
            (get_address (ucast p) (of_nat (Suc m + j))) = ds ! j"
      using Cons.prems Suc by (intro Cons.IH) simp_all
    with Suc show ?thesis by simp
  qed
qed

lemma free_pages_loop_store:
  assumes "1 \<le> unat (p :: byte)" "unat p < 64" "m + length ds \<le> 256"
    and "free_pages s = ds @ rest"
  shows "free_pages (s\<lparr>mem := loop_store (ucast p) m ds (mem s)\<rparr>) = rest"
  using assms(3,4)
proof (induction ds arbitrary: m s)
  case Nil
  then show ?case by simp
next
  case (Cons d ds)
  let ?ga = "get_address (ucast p) (of_nat m)"
  let ?s2 = "s\<lparr>mem := (mem s)(ucast d := 1, ?ga := d)\<rparr>"
  have "m < 256" using Cons.prems by simp
  then have "unat ?ga = unat p * 256 + m" using assms(2) by (simp add: entry_address_unat)
  then have out: "\<not> (1 \<le> unat ?ga \<and> unat ?ga < 64)" using assms(1) by simp
  have "free_pages (s\<lparr>mem := (mem s)(ucast d := 1)\<rparr>) = ds @ rest"
    using Cons.prems by (intro free_pages_take) simp
  then have "free_pages ?s2 = ds @ rest"
    using free_pages_write_outside [OF out, of "s\<lparr>mem := (mem s)(ucast d := 1)\<rparr>" d]
    by simp
  then have "free_pages (?s2\<lparr>mem := loop_store (ucast p) (Suc m) ds (mem ?s2)\<rparr>) = rest"
    using Cons.prems by (intro Cons.IH) simp_all
  then show ?case by simp
qed

lemma free_pages_length: "length (free_pages s) \<le> 63"
proof -
  have "length (free_pages s) \<le> length (map of_nat [1..<64] :: byte list)"
    unfolding free_pages_def by (rule length_filter_le)
  then show ?thesis by simp
qed

lemma new_process_created:
  assumes slot: "64 \<le> unat (PAGE_COUNT + proc_num)" "unat (PAGE_COUNT + proc_num) < 256"
    and pre: "\<not> free_page_count s <s k"
    and k: "unat k < 2 ^ 31"
    and fp: "free_pages s = p # ds @ rest" "length ds = unat k"
  shows "new_process proc_num k s =
         Inr (s\<lparr>mem := loop_store (ucast p) 0 ds ((mem s)(ucast p := 1, PAGE_COUNT + proc_num := p)),
                free_page_count := free_page_count s - 1 - of_nat (length ds)\<rparr>)"
proof -
  let ?slot = "PAGE_COUNT + proc_num"
  let ?s2 = "s\<lparr>mem := (mem s)(ucast p := 1, ?slot := p), free_page_count := free_page_count s - 1\<rparr>"
  have "p \<in> set (free_pages s)" using fp(1) by simp
  then have p: "1 \<le> unat p" "unat p < 64" by (simp_all only: free_pages_set)
  have len: "length ds \<le> 62" using free_pages_length [of s] fp(1) by simp
  have ib: "in_bounds ?slot" using slot by (simp add: in_bounds_unat)
  have find: "find_page s = Inr (p, s\<lparr>mem := (mem s)(ucast p := 1),
                                         free_page_count := free_page_count s - 1\<rparr>)"
    by (simp add: find_page_free_pages fp(1))
  have swap: "\<And>f c. s\<lparr>free_page_count := c, mem := f\<rparr> = s\<lparr>mem := f, free_page_count := c\<rparr>"
    by (cases s) simp
  have start: "new_process proc_num k s = new_process_loop (ucast p) k 0 ?s2"
    by (simp add: new_process_def pre find mem_write_def ib ucast_ucast_byte swap)
  have out: "\<not> (1 \<le> unat ?slot \<and> unat ?slot < 64)" using slot by simp
  have "free_pages (s\<lparr>mem := (mem s)(ucast p := 1)\<rparr>) = ds @ rest"
    using fp(1) by (rule free_pages_take)
  then have fp2: "free_pages ?s2 = ds @ rest"
    using free_pages_write_outside [OF out, of "s\<lparr>mem := (mem s)(ucast p := 1)\<rparr>" p]
    by simp
  have "new_process_loop (ucast p) k (of_nat 0) ?s2 =
        new_process_loop (ucast p) k (of_nat (0 + length ds))
          (?s2\<lparr>mem := loop_store (ucast p) 0 ds (mem ?s2),
                free_page_count := free_page_count ?s2 - of_nat (length ds)\<rparr>)"
    using p fp2 len fp(2) k by (intro new_process_loop_prefix) simp_all
  moreover have "(of_nat (0 + length ds) :: cint) = k" by (simp add: fp(2))
  moreover have "\<not> k <s k" by (simp add: word_sless_alt)
  ultimately have "new_process_loop (ucast p) k 0 ?s2 =
      Inr (?s2\<lparr>mem := loop_store (ucast p) 0 ds (mem ?s2),
                free_page_count := free_page_count ?s2 - of_nat (length ds)\<rparr>)"
    by (subst (asm) (2) new_process_loop.simps) simp
  then show ?thesis by (simp add: start)
qed

section \<open>Store and load\<close>

lemma get_physical_address_mapped:
  assumes slot: "unat (PAGE_COUNT + p) < 256"
    and pt: "mem s (PAGE_COUNT + p) = t" "unat t < 64"
    and vp: "unat (signed_drop_bit 8 va) < 256"
    and e: "mem s (get_address (ucast t) (signed_drop_bit 8 va)) = d"
  shows "get_physical_address p va s = Inr (get_address (ucast d) (and va 255))"
proof -
  let ?vp = "signed_drop_bit 8 va"
  have u0: "unat (get_address (ucast t) 0) = unat t * 256"
    using entry_address_unat [OF pt(2), of 0] by simp
  have uv: "unat (get_address (ucast t) ?vp) = unat t * 256 + unat ?vp"
    using entry_address_unat [OF pt(2) vp] by simp
  have "unat (get_address (ucast t) 0) + unat ?vp < 2 ^ LENGTH(32)"
    using pt(2) vp by (simp add: u0)
  then have "unat (get_address (ucast t) 0 + ?vp) = unat (get_address (ucast t) 0) + unat ?vp"
    by (rule unat_add_lem [THEN iffD1])
  then have "unat (get_address (ucast t) 0 + ?vp) = unat (get_address (ucast t) ?vp)"
    by (simp add: u0 uv)
  then have same: "get_address (ucast t) 0 + ?vp = get_address (ucast t) ?vp"
    by (rule word_unat_eq_iff [THEN iffD2])
  have ib1: "in_bounds (PAGE_COUNT + p)" using slot by (simp add: in_bounds_unat)
  have ib2: "in_bounds (get_address (ucast t) ?vp)"
    using pt(2) vp by (simp add: in_bounds_unat uv)
  show ?thesis
    by (simp add: get_physical_address_def get_page_table_def mem_read_def Let_def
        ib1 pt(1) same ib2 e)
qed

lemma low_bits_unat: "unat (and (va :: cint) 255) < 256"
proof -
  have "and va 255 \<le> 255" by (rule word_and_le1)
  then have "unat (and va 255) \<le> 255" by (simp add: word_le_nat_alt)
  then show ?thesis by simp
qed

lemma get_physical_address_out:
  "get_physical_address p va (s\<lparr>out := l\<rparr>) = get_physical_address p va s"
  by (simp add: get_physical_address_def get_page_table_def mem_read_def Let_def)

lemma store_then_load_mapped:
  assumes slot: "unat (PAGE_COUNT + p) < 256"
    and pt: "mem s (PAGE_COUNT + p) = t" "1 \<le> unat t" "unat t < 64"
    and vp: "unat (signed_drop_bit 8 va) < 256"
    and e: "mem s (get_address (ucast t) (signed_drop_bit 8 va)) = d"
      "1 \<le> unat d" "unat d < 64" "d \<noteq> t"
  shows "\<exists>s2 s3. store_value p va w s = Inr s2 \<and> read_value p va s2 = Inr (ucast w, s3)"
proof -
  let ?vp = "signed_drop_bit 8 va"
  let ?off = "and va 255"
  let ?a = "get_address (ucast d) ?off"
  let ?s2 = "s\<lparr>mem := (mem s)(?a := ucast w)\<rparr>"
  have ua: "unat ?a = unat d * 256 + unat ?off"
    using entry_address_unat [OF e(3) low_bits_unat [of va]] by simp
  have ib: "in_bounds ?a" using e(3) low_bits_unat [of va] by (simp add: in_bounds_unat ua)
  have tr: "get_physical_address p va s = Inr ?a"
    using slot pt(1,3) vp e(1) by (rule get_physical_address_mapped)
  have ne_slot: "?a \<noteq> PAGE_COUNT + p"
  proof
    assume "?a = PAGE_COUNT + p"
    then have "unat ?a < 256" using slot by simp
    with e(2) show False by (simp add: ua)
  qed
  have ne_entry: "?a \<noteq> get_address (ucast t) ?vp"
  proof
    assume "?a = get_address (ucast t) ?vp"
    then have "get_address (ucast d) (of_nat (unat ?off)) = get_address (ucast t) (of_nat (unat ?vp))"
      by simp
    with e(3) pt(3) low_bits_unat [of va] vp have "d = t \<and> unat ?off = unat ?vp"
      by (intro entry_address_inj)
    with e(4) show False by simp
  qed
  have "mem ?s2 (PAGE_COUNT + p) = t" using ne_slot pt(1) by simp
  moreover have "mem ?s2 (get_address (ucast t) ?vp) = d" using ne_entry e(1) by simp
  ultimately have tr2: "get_physical_address p va ?s2 = Inr ?a"
    using slot pt(3) vp by (intro get_physical_address_mapped)
  have tr3: "\<And>l. get_physical_address p va (?s2\<lparr>out := l\<rparr>) = Inr ?a"
    by (simp only: get_physical_address_out tr2)
  have st: "store_value p va w s = Inr (?s2\<lparr>out := out s @ [StoreLine p va ?a w]\<rparr>)"
    by (simp add: store_value_def tr mem_write_def ib print_def)
  have "\<exists>s3. read_value p va (?s2\<lparr>out := out s @ [StoreLine p va ?a w]\<rparr>) = Inr (ucast w, s3)"
    by (simp add: read_value_def tr3 mem_read_def ib print_def)
  with st show ?thesis by blast
qed

lemma sint_nonneg_unat: "0 \<le> sint (a :: cint) \<Longrightarrow> unat a < 2 ^ 31"
proof (rule ccontr)
  assume "0 \<le> sint a" and "\<not> unat a < 2 ^ 31"
  then show False using sint_neg_unat [of a] by linarith
qed

lemma process_slot:
  assumes "0 \<le>s proc_num" "proc_num <s PAGE_SIZE - PAGE_COUNT"
  shows "64 \<le> unat (PAGE_COUNT + proc_num) \<and> unat (PAGE_COUNT + proc_num) < 256"
proof -
  have "0 \<le> sint proc_num" using assms(1) by (simp add: word_sle_eq)
  then have n: "unat proc_num < 2 ^ 31" by (rule sint_nonneg_unat)
  have "proc_num <s 192" using assms(2) by (simp add: PAGE_SIZE_def PAGE_COUNT_def)
  then have u: "unat proc_num < 192" using n by (simp add: sless_unat)
  then have "unat (64 :: cint) + unat proc_num < 2 ^ LENGTH(32)" by simp
  then have "unat (64 + proc_num) = unat (64 :: cint) + unat proc_num"
    by (rule unat_add_lem [THEN iffD1])
  with u show ?thesis by (simp add: PAGE_COUNT_def)
qed

lemma free_pages_boot:
  "free_pages (startup\<lparr>mem := (mem startup)(0 := 1)\<rparr>) = map of_nat [1..<64]"
proof -
  have "\<And>i :: byte. i \<in> set (map of_nat [1..<64]) \<Longrightarrow> (ucast i :: cint) \<noteq> 0"
  proof
    fix i :: byte
    assume "i \<in> set (map of_nat [1..<64])" and "(ucast i :: cint) = 0"
    then have "1 \<le> unat i" "unat (ucast i :: cint) = 0" by (simp_all only: page_numbers_set) simp
    then show False by (simp add: unat_ucast_byte)
  qed
  then show ?thesis
    unfolding free_pages_def by (intro filter_True) (simp add: startup_def)
qed

text \<open>
  Claim C5. Let a process be created by \<^verbatim>\<open>new_process(proc_num, page_count)\<close> in any state
  where the test on \<^verbatim>\<open>free_page_count\<close> passes and the bitmap has more than \<open>page_count\<close>
  free pages (so the page table and every data page are allocated), with the slot of
  \<open>proc_num\<close> in page 0 behind the bitmap (\<open>0 \<le> proc_num < PAGE_SIZE - PAGE_COUNT\<close>).
  Then all three calls return, and for every address whose virtual page is in
  \<open>0 .. page_count-1\<close> and every byte \<open>v\<close>, \<^verbatim>\<open>store_value\<close> of \<open>v\<close> followed by
  \<^verbatim>\<open>read_value\<close> returns \<open>v\<close>. The witness is \<^verbatim>\<open>np 2 1\<close>, \<^verbatim>\<open>sb 2 0 99\<close>, \<^verbatim>\<open>lb 2 0\<close>
  after \<^verbatim>\<open>initialize_mem\<close>.
\<close>

theorem store_then_load_fresh:
  assumes proc: "0 \<le>s proc_num" "proc_num <s PAGE_SIZE - PAGE_COUNT"
    and pre: "\<not> free_page_count s <s page_count"
    and full: "sint page_count < int (length (free_pages s))"
    and va: "0 \<le>s signed_drop_bit PAGE_SHIFT va" "signed_drop_bit PAGE_SHIFT va <s page_count"
  shows "\<exists>s1 s2 s3. new_process proc_num page_count s = Inr s1 \<and>
           store_value proc_num va (ucast (v :: byte)) s1 = Inr s2 \<and>
           read_value proc_num va s2 = Inr (v, s3)"
proof -
  let ?slot = "PAGE_COUNT + proc_num"
  let ?vp = "signed_drop_bit 8 va"
  have slot: "64 \<le> unat ?slot" "unat ?slot < 256"
    using process_slot [OF proc] by simp_all
  have vp0: "0 \<le> sint ?vp" using va(1) by (simp add: word_sle_eq PAGE_SHIFT_def)
  then have vp: "unat ?vp < 2 ^ 31" by (rule sint_nonneg_unat)
  have vpk: "?vp <s page_count" using va(2) by (simp add: PAGE_SHIFT_def)
  then have "sint ?vp < sint page_count" by (simp add: word_sless_alt)
  with vp0 have "0 \<le> sint page_count" by linarith
  then have k: "unat page_count < 2 ^ 31" by (rule sint_nonneg_unat)
  have vk: "unat ?vp < unat page_count" using vpk by (simp only: sless_unat [OF vp k])
  have "sint page_count = int (unat page_count)" using k by (rule sint_eq_unat)
  with full have len: "unat page_count < length (free_pages s)" by linarith
  then obtain p tl where fs: "free_pages s = p # tl" by (cases "free_pages s") auto
  define ds where "ds = take (unat page_count) tl"
  define rest where "rest = drop (unat page_count) tl"
  have split: "free_pages s = p # ds @ rest" by (simp add: fs ds_def rest_def)
  have lds: "length ds = unat page_count" using len fs by (simp add: ds_def)
  have "p \<in> set (free_pages s)" using fs by simp
  then have p: "1 \<le> unat p" "unat p < 64" by (simp_all only: free_pages_set)
  have pages: "\<And>d. d \<in> set ds \<Longrightarrow> 1 \<le> unat d \<and> unat d < 64 \<and> d \<noteq> p"
  proof -
    fix d assume d: "d \<in> set ds"
    then have "d \<in> set (free_pages s)" by (simp add: split)
    then have "1 \<le> unat d \<and> unat d < 64" by (simp only: free_pages_set)
    moreover have "d \<noteq> p" using free_pages_distinct [of s] d by (auto simp: split)
    ultimately show "1 \<le> unat d \<and> unat d < 64 \<and> d \<noteq> p" by simp
  qed
  have lds256: "0 + length ds \<le> 256" using free_pages_length [of s] split by simp
  let ?f0 = "(mem s)(ucast p := 1, ?slot := p)"
  let ?s1 = "s\<lparr>mem := loop_store (ucast p) 0 ds ?f0,
               free_page_count := free_page_count s - 1 - of_nat (length ds)\<rparr>"
  have created: "new_process proc_num page_count s = Inr ?s1"
    using slot pre k split lds by (rule new_process_created)
  have "?slot \<notin> ucast ` set ds"
  proof
    assume "?slot \<in> ucast ` set ds"
    then obtain d where "d \<in> set ds" "?slot = ucast d" by blast
    then have "unat ?slot < 64" using pages [of d] by (simp add: unat_ucast_byte)
    with slot(1) show False by simp
  qed
  moreover have "?slot \<notin> (\<lambda>i. get_address (ucast p) (of_nat i)) ` {0 ..< 0 + length ds}"
  proof
    assume "?slot \<in> (\<lambda>i. get_address (ucast p) (of_nat i)) ` {0 ..< 0 + length ds}"
    then obtain i where "i < length ds" "?slot = get_address (ucast p) (of_nat i)" by auto
    moreover have "i < 256" using calculation(1) lds256 by simp
    ultimately show False using entry_address_not_low [OF p, of i ?slot] slot(2) by simp
  qed
  ultimately have "loop_store (ucast p) 0 ds ?f0 ?slot = ?f0 ?slot" by (rule loop_store_frame)
  then have table: "mem ?s1 ?slot = p" by simp
  have "loop_store (ucast p) 0 ds ?f0 (get_address (ucast p) (of_nat (0 + unat ?vp))) = ds ! unat ?vp"
    using p lds256 vk by (intro loop_store_entry) (simp_all add: lds)
  then have entry: "mem ?s1 (get_address (ucast p) ?vp) = ds ! unat ?vp" by simp
  have "ds ! unat ?vp \<in> set ds" using vk by (simp add: lds)
  then have d: "1 \<le> unat (ds ! unat ?vp)" "unat (ds ! unat ?vp) < 64" "ds ! unat ?vp \<noteq> p"
    using pages [of "ds ! unat ?vp"] by simp_all
  have "unat ?vp < 256" using vk len free_pages_length [of s] by simp
  with slot(2) table p have
    "\<exists>s2 s3. store_value proc_num va (ucast v) ?s1 = Inr s2 \<and>
        read_value proc_num va s2 = Inr (ucast (ucast v :: cint), s3)"
    using entry d by (rule store_then_load_mapped)
  then show ?thesis using created by (simp add: ucast_ucast_byte)
qed

theorem store_then_load_fresh_witness:
  "0 \<le>s (2 :: cint) \<and> (2 :: cint) <s PAGE_SIZE - PAGE_COUNT \<and>
   \<not> free_page_count (startup\<lparr>mem := (mem startup)(0 := 1)\<rparr>) <s 1 \<and>
   sint (1 :: cint) < int (length (free_pages (startup\<lparr>mem := (mem startup)(0 := 1)\<rparr>))) \<and>
   0 \<le>s signed_drop_bit PAGE_SHIFT (0 :: cint) \<and>
   signed_drop_bit PAGE_SHIFT (0 :: cint) <s 1 \<and>
   (\<exists>s1 s2 s3. new_process 2 1 (startup\<lparr>mem := (mem startup)(0 := 1)\<rparr>) = Inr s1 \<and>
      store_value 2 0 (ucast (99 :: byte)) s1 = Inr s2 \<and>
      read_value 2 0 s2 = Inr (99, s3))"
proof -
  let ?s0 = "startup\<lparr>mem := (mem startup)(0 := 1)\<rparr>"
  have h1: "0 \<le>s (2 :: cint)" by (simp add: word_sle_eq)
  have h2: "(2 :: cint) <s PAGE_SIZE - PAGE_COUNT"
    by (simp add: word_sless_alt PAGE_SIZE_def PAGE_COUNT_def)
  have h3: "\<not> free_page_count ?s0 <s 1"
    by (simp add: word_sless_alt startup_def PAGE_COUNT_def)
  have h4: "sint (1 :: cint) < int (length (free_pages ?s0))"
    by (simp add: free_pages_boot)
  have h5: "0 \<le>s signed_drop_bit PAGE_SHIFT (0 :: cint)" by (simp add: word_sle_eq)
  have h6: "signed_drop_bit PAGE_SHIFT (0 :: cint) <s 1" by (simp add: word_sless_alt)
  from store_then_load_fresh [OF h1 h2 h3 h4 h5 h6, of 99]
  show ?thesis using h1 h2 h3 h4 h5 h6 by blast
qed

section \<open>Running out of pages\<close>

lemma free_pages_out [simp]: "free_pages (s\<lparr>out := l\<rparr>) = free_pages s"
  by (simp add: free_pages_def)

lemma loop_store_slot:
  assumes p: "1 \<le> unat (p :: byte)" "unat p < 64"
    and len: "m + length ds \<le> 256"
    and ds: "\<And>d. d \<in> set ds \<Longrightarrow> unat d < 64"
    and a: "64 \<le> unat a" "unat a < 256"
  shows "loop_store (ucast p) m ds f a = f a"
proof (rule loop_store_frame)
  show "a \<notin> ucast ` set ds"
  proof
    assume "a \<in> ucast ` set ds"
    then obtain d where "d \<in> set ds" "a = ucast d" by blast
    then have "unat a < 64" using ds [of d] by (simp add: unat_ucast_byte)
    with a(1) show False by simp
  qed
  show "a \<notin> (\<lambda>i. get_address (ucast p) (of_nat i)) ` {m ..< m + length ds}"
  proof
    assume "a \<in> (\<lambda>i. get_address (ucast p) (of_nat i)) ` {m ..< m + length ds}"
    then obtain i where "i < m + length ds" "a = get_address (ucast p) (of_nat i)" by auto
    moreover have "i < 256" using calculation(1) len by simp
    ultimately show False using entry_address_not_low [OF p, of i a] a(2) by simp
  qed
qed

lemma new_process_one_short:
  assumes slot: "64 \<le> unat (PAGE_COUNT + proc_num)" "unat (PAGE_COUNT + proc_num) < 256"
    and pre: "\<not> free_page_count s <s k"
    and k: "unat k < 2 ^ 31"
    and fp: "free_pages s = p # ds" "Suc (length ds) = unat k"
  shows "\<exists>s'. new_process proc_num k s = Inr s' \<and>
           mem s' (PAGE_COUNT + proc_num) = p \<and>
           mem s' (get_address (ucast p) (of_nat (length ds))) = 0xff"
proof -
  let ?slot = "PAGE_COUNT + proc_num"
  let ?n = "length ds"
  let ?s2 = "s\<lparr>mem := (mem s)(ucast p := 1, ?slot := p), free_page_count := free_page_count s - 1\<rparr>"
  let ?s3 = "?s2\<lparr>mem := loop_store (ucast p) 0 ds (mem ?s2),
                 free_page_count := free_page_count ?s2 - of_nat ?n\<rparr>"
  let ?ga = "get_address (ucast p) (of_nat ?n)"
  have "p \<in> set (free_pages s)" using fp(1) by simp
  then have p: "1 \<le> unat p" "unat p < 64" by (simp_all only: free_pages_set)
  have pages: "\<And>d. d \<in> set ds \<Longrightarrow> unat d < 64"
  proof -
    fix d assume "d \<in> set ds"
    then have "d \<in> set (free_pages s)" by (simp add: fp(1))
    then show "unat d < 64" by (simp only: free_pages_set)
  qed
  have len: "?n \<le> 62" using free_pages_length [of s] fp(1) by simp
  have ib: "in_bounds ?slot" using slot by (simp add: in_bounds_unat)
  have find: "find_page s = Inr (p, s\<lparr>mem := (mem s)(ucast p := 1),
                                         free_page_count := free_page_count s - 1\<rparr>)"
    by (simp add: find_page_free_pages fp(1))
  have swap: "\<And>f c. s\<lparr>free_page_count := c, mem := f\<rparr> = s\<lparr>mem := f, free_page_count := c\<rparr>"
    by (cases s) simp
  have start: "new_process proc_num k s = new_process_loop (ucast p) k 0 ?s2"
    by (simp add: new_process_def pre find mem_write_def ib ucast_ucast_byte swap)
  have out: "\<not> (1 \<le> unat ?slot \<and> unat ?slot < 64)" using slot by simp
  have "free_pages (s\<lparr>mem := (mem s)(ucast p := 1)\<rparr>) = ds"
    using fp(1) by (rule free_pages_take)
  then have fp2: "free_pages ?s2 = ds @ []"
    using free_pages_write_outside [OF out, of "s\<lparr>mem := (mem s)(ucast p := 1)\<rparr>" p]
    by simp
  define s3 where "s3 = ?s3"
  have prefix: "new_process_loop (ucast p) k (of_nat 0) ?s2 =
        new_process_loop (ucast p) k (of_nat (0 + ?n)) s3"
    unfolding s3_def using p fp2 len fp(2) k by (intro new_process_loop_prefix) simp_all
  have "free_pages (?s2\<lparr>mem := loop_store (ucast p) 0 ds (mem ?s2)\<rparr>) = []"
    using p len fp2 by (intro free_pages_loop_store) simp_all
  then have fp3: "free_pages s3 = []" by (simp add: s3_def free_pages_def)
  have un: "unat (of_nat ?n :: cint) = ?n" using len by (simp add: unat_of_nat_cint)
  have cond: "(of_nat ?n :: cint) <s k" using k fp(2) len by (simp add: sless_unat un)
  have "(of_nat (Suc ?n) :: cint) = of_nat (unat k)" by (simp only: fp(2))
  then have last: "(of_nat ?n :: cint) + 1 = k" by (simp add: add.commute)
  have stop: "\<not> k <s k" by (simp add: word_sless_alt)
  have uga: "unat ?ga = unat p * 256 + ?n" using p(2) len by (intro entry_address_unat) simp_all
  have ib2: "in_bounds ?ga" using p(2) len by (simp add: in_bounds_unat uga)
  define s4 where "s4 = s3\<lparr>mem := (mem s3)(?ga := 0xff)\<rparr>"
  have exit: "new_process_loop (ucast p) k k s4 = Inr s4"
    by (subst new_process_loop.simps) (simp add: stop)
  have "new_process_loop (ucast p) k (of_nat ?n) s3 = new_process_loop (ucast p) k k s4"
    by (subst new_process_loop.simps)
       (simp add: cond find_page_free_pages fp3 mem_write_def ib2 last s4_def)
  with prefix exit start have run: "new_process proc_num k s = Inr s4" by simp
  have "?ga \<noteq> ?slot"
    using entry_address_not_low [OF p, of ?n ?slot] slot(2) len by auto
  moreover have "loop_store (ucast p) 0 ds (mem ?s2) ?slot = mem ?s2 ?slot"
    using p len pages slot by (intro loop_store_slot) simp_all
  ultimately have "mem s4 ?slot = p" by (simp add: s4_def s3_def)
  moreover have "mem s4 ?ga = 0xff" by (simp add: s4_def)
  ultimately show ?thesis using run by blast
qed

lemma sentinel_as_table_entry:
  "case main [NP 1 63] of
     Inl e \<Rightarrow> False
   | Inr s \<Rightarrow>
       mem s (PAGE_COUNT + 1) = 1 \<and>
       mem s (get_address 1 62) = 0xff \<and>
       get_physical_address 1 15872 s = Inr 65280 \<and>
       store_value 1 15872 7 s = Inl (OutOfBounds 65280) \<and>
       read_value 1 15872 s = Inl (OutOfBounds 65280) \<and>
       MEM_SIZE \<le>s 65280"
proof -
  let ?s0 = "startup\<lparr>mem := (mem startup)(0 := 1)\<rparr>"
  have slot: "64 \<le> unat (PAGE_COUNT + 1)" "unat (PAGE_COUNT + 1) < 256"
    by (simp_all add: PAGE_COUNT_def)
  have pre: "\<not> free_page_count ?s0 <s 63"
    by (simp add: startup_def PAGE_COUNT_def word_sless_alt)
  have k: "unat (63 :: cint) < 2 ^ 31" by simp
  have "[1..<64] = 1 # [2..<64]" by (simp add: upt_conv_Cons)
  then have fp: "free_pages ?s0 = 1 # map of_nat [2..<64]"
    by (simp add: free_pages_boot)
  have n: "Suc (length (map of_nat [2..<64] :: byte list)) = unat (63 :: cint)" by simp
  from new_process_one_short [OF slot pre k fp n]
  obtain s' where s': "new_process 1 63 ?s0 = Inr s'" "mem s' (PAGE_COUNT + 1) = 1"
    "mem s' (get_address (ucast (1 :: byte)) (of_nat (length (map of_nat [2..<64] :: byte list)))) = 0xff"
    by blast
  from s'(3) have e: "mem s' (get_address (ucast (1 :: byte)) (signed_drop_bit 8 15872)) = 0xff"
    by simp
  have "get_physical_address 1 15872 s' = Inr (get_address (ucast (0xff :: byte)) (and 15872 255))"
    using slot(2) s'(2) _ _ e by (rule get_physical_address_mapped) simp_all
  then have tr: "get_physical_address 1 15872 s' = Inr 65280"
    by (simp add: get_address_def PAGE_SHIFT_def)
  have oob: "\<not> in_bounds 65280" by (simp add: in_bounds_unat)
  have "store_value 1 15872 7 s' = Inl (OutOfBounds 65280)"
    by (simp add: store_value_def tr mem_write_def oob)
  moreover have "read_value 1 15872 s' = Inl (OutOfBounds 65280)"
    by (simp add: read_value_def tr mem_read_def oob)
  moreover have "mem s' (get_address 1 62) = 0xff" using e by simp
  moreover have "MEM_SIZE \<le>s 65280" by (simp add: MEM_SIZE_def word_sle_eq)
  moreover have "main [NP 1 63] = Inr s'" by (simp add: main_def boot s'(1))
  ultimately show ?thesis using s'(2) tr by simp
qed

lemma new_process_created_free_pages:
  assumes slot: "64 \<le> unat (PAGE_COUNT + proc_num)" "unat (PAGE_COUNT + proc_num) < 256"
    and fp: "free_pages s = p # ds @ rest"
  shows "free_pages (s\<lparr>mem := loop_store (ucast p) 0 ds ((mem s)(ucast p := 1, PAGE_COUNT + proc_num := p)),
                       free_page_count := c\<rparr>) = rest"
proof -
  let ?slot = "PAGE_COUNT + proc_num"
  let ?s2 = "s\<lparr>mem := (mem s)(ucast p := 1, ?slot := p)\<rparr>"
  have "p \<in> set (free_pages s)" using fp by simp
  then have p: "1 \<le> unat p" "unat p < 64" by (simp_all only: free_pages_set)
  have len: "0 + length ds \<le> 256" using free_pages_length [of s] fp by simp
  have out: "\<not> (1 \<le> unat ?slot \<and> unat ?slot < 64)" using slot by simp
  have "free_pages (s\<lparr>mem := (mem s)(ucast p := 1)\<rparr>) = ds @ rest"
    using fp by (rule free_pages_take)
  then have "free_pages ?s2 = ds @ rest"
    using free_pages_write_outside [OF out, of "s\<lparr>mem := (mem s)(ucast p := 1)\<rparr>" p]
    by simp
  with p len have "free_pages (?s2\<lparr>mem := loop_store (ucast p) 0 ds (mem ?s2)\<rparr>) = rest"
    by (rule free_pages_loop_store)
  then show ?thesis by (simp add: free_pages_def)
qed

lemma new_process_exhausted:
  assumes slot: "unat (PAGE_COUNT + proc_num) < 256"
    and pre: "\<not> free_page_count s <s k" "\<not> 0 <s k"
    and fp: "free_pages s = []"
  shows "new_process proc_num k s = Inr (s\<lparr>mem := (mem s)(PAGE_COUNT + proc_num := 0xff)\<rparr>)"
proof -
  have ib: "in_bounds (PAGE_COUNT + proc_num)" using slot by (simp add: in_bounds_unat)
  have "\<And>s'. new_process_loop (ucast (0xff :: byte)) k 0 s' = Inr s'"
    by (subst new_process_loop.simps) (simp add: pre(2))
  then show ?thesis
    by (simp add: new_process_def pre(1) find_page_free_pages fp mem_write_def ib)
qed

lemma sentinel_as_page_table:
  "case main [NP 1 62, NP 2 0] of
     Inl e \<Rightarrow> False
   | Inr s \<Rightarrow>
       mem s (PAGE_COUNT + 2) = 0xff \<and>
       store_value 2 0 7 s = Inl (OutOfBounds 65280) \<and>
       read_value 2 0 s = Inl (OutOfBounds 65280)"
proof -
  let ?s0 = "startup\<lparr>mem := (mem startup)(0 := 1)\<rparr>"
  let ?ds = "map of_nat [2..<64] :: byte list"
  define s1 where "s1 = ?s0\<lparr>mem := loop_store (ucast (1 :: byte)) 0 ?ds
                                ((mem ?s0)(ucast (1 :: byte) := 1, PAGE_COUNT + 1 := 1)),
                             free_page_count := free_page_count ?s0 - 1 - of_nat (length ?ds)\<rparr>"
  have slot: "64 \<le> unat (PAGE_COUNT + 1)" "unat (PAGE_COUNT + 1) < 256"
    by (simp_all add: PAGE_COUNT_def)
  have pre: "\<not> free_page_count ?s0 <s 62"
    by (simp add: startup_def PAGE_COUNT_def word_sless_alt)
  have k: "unat (62 :: cint) < 2 ^ 31" by simp
  have "[1..<64] = 1 # [2..<64]" by (simp add: upt_conv_Cons)
  then have fp: "free_pages ?s0 = 1 # ?ds @ []"
    by (simp add: free_pages_boot)
  have n: "length ?ds = unat (62 :: cint)" by simp
  have first: "new_process 1 62 ?s0 = Inr s1"
    unfolding s1_def using slot pre k fp n by (rule new_process_created)
  have fp1: "free_pages s1 = []"
    unfolding s1_def using slot fp by (rule new_process_created_free_pages)
  have c1: "free_page_count s1 = 0" by (simp add: s1_def startup_def PAGE_COUNT_def)
  have slot2: "unat (PAGE_COUNT + 2) < 256" by (simp add: PAGE_COUNT_def)
  have pre2: "\<not> free_page_count s1 <s 0" "\<not> (0 :: cint) <s 0"
    by (simp_all add: c1 word_sless_alt)
  define s2 where "s2 = s1\<lparr>mem := (mem s1)(PAGE_COUNT + 2 := 0xff)\<rparr>"
  have second: "new_process 2 0 s1 = Inr s2"
    unfolding s2_def using slot2 pre2 fp1 by (rule new_process_exhausted)
  have run: "main [NP 1 62, NP 2 0] = Inr s2" by (simp add: main_def boot first second)
  have t: "mem s2 (PAGE_COUNT + 2) = 0xff" by (simp add: s2_def)
  have ib: "in_bounds (PAGE_COUNT + 2)" using slot2 by (simp add: in_bounds_unat)
  have oob: "\<not> in_bounds 65280" by (simp add: in_bounds_unat)
  have tr: "get_physical_address 2 0 s2 = Inl (OutOfBounds 65280)"
    by (simp add: get_physical_address_def get_page_table_def mem_read_def ib t
        get_address_def PAGE_SHIFT_def oob Let_def)
  show ?thesis
    by (simp add: run t store_value_def read_value_def tr)
qed

text \<open>
  Claim C9. \<^verbatim>\<open>new_process\<close> does not test the result of \<^verbatim>\<open>find_page\<close>, so the failure
  value \<^verbatim>\<open>0xff\<close> ends up in the bookkeeping of states reached from \<^verbatim>\<open>initialize_mem\<close>.
  After \<^verbatim>\<open>np 1 63\<close> the last page-table entry of process 1 is \<^verbatim>\<open>0xff\<close>; after
  \<^verbatim>\<open>np 1 62 np 2 0\<close> the page-table page number recorded for process 2 is \<^verbatim>\<open>0xff\<close>. In both
  states a store or a load that goes through it accesses \<^verbatim>\<open>mem[65280]\<close>, and
  \<open>65280 = 0xff << PAGE_SHIFT\<close> is not below \<^verbatim>\<open>MEM_SIZE\<close>.
\<close>

theorem sentinel_page_number_out_of_bounds:
  "(case main [NP 1 63] of
     Inl e \<Rightarrow> False
   | Inr s \<Rightarrow>
       mem s (PAGE_COUNT + 1) = 1 \<and>
       mem s (get_address 1 62) = 0xff \<and>
       get_physical_address 1 15872 s = Inr 65280 \<and>
       store_value 1 15872 7 s = Inl (OutOfBounds 65280) \<and>
       read_value 1 15872 s = Inl (OutOfBounds 65280) \<and>
       MEM_SIZE \<le>s 65280) \<and>
   (case main [NP 1 62, NP 2 0] of
     Inl e \<Rightarrow> False
   | Inr s \<Rightarrow>
       mem s (PAGE_COUNT + 2) = 0xff \<and>
       store_value 2 0 7 s = Inl (OutOfBounds 65280) \<and>
       read_value 2 0 s = Inl (OutOfBounds 65280))"
  by (rule conjI [OF sentinel_as_table_entry sentinel_as_page_table])

section \<open>Destroying a process\<close>

text \<open>
  Claim C1, on the command line \<^verbatim>\<open>np 5 3 kp 5\<close>. The four pages of process 5 (its page table,
  page 1, and its data pages 2, 3 and 4) are free again in the bitmap after \<^verbatim>\<open>kill\<close>, but
  \<^verbatim>\<open>free_page_count\<close> stays at 59 and does not return to the 63 it was before the creation:
  \<^verbatim>\<open>find_page\<close> decrements the counter, \<^verbatim>\<open>deallocate_page\<close> never increments it.
\<close>

theorem kill_does_not_restore_free_page_count:
  "case initialize_mem startup of
     Inl e \<Rightarrow> False
   | Inr s0 \<Rightarrow>
       free_page_count s0 = 63 \<and>
       (case new_process 5 3 s0 of
          Inl e \<Rightarrow> False
        | Inr s1 \<Rightarrow>
            free_page_count s1 = 59 \<and>
            mem s1 (PAGE_COUNT + 5) = 1 \<and>
            map (\<lambda>v. mem s1 (get_address 1 v)) [0, 1, 2] = [2, 3, 4] \<and>
            map (mem s1) [1, 2, 3, 4] = [1, 1, 1, 1] \<and>
            (case kill 5 s1 of
               Inl e \<Rightarrow> False
             | Inr s2 \<Rightarrow>
                 map (mem s2) [1, 2, 3, 4] = [0, 0, 0, 0] \<and>
                 free_page_count s2 = 59 \<and>
                 free_page_count s2 \<noteq> free_page_count s0))"
  by (simp add: run_simps)

text \<open>
  Claim C2, on a run in which every call is made on an active process with arguments in
  range. Page 3 is first a data page of process 1, which stores the byte 6 at its offset
  100, and later the page table of process 3. In that table the only non-zero entry among
  the virtual pages \<open>0 .. 63\<close> is entry 0 (page 4): it is all that \<^verbatim>\<open>print_page_table\<close>, whose
  loop stops at \<^verbatim>\<open>PAGE_COUNT\<close>, lists. The loop of \<^verbatim>\<open>kill\<close> runs up to \<^verbatim>\<open>PAGE_SIZE\<close>, so it
  also reads offset 100 and clears bitmap byte 6, the data page of process 4, which stays
  mapped.
\<close>

theorem kill_frees_page_of_entry_beyond_page_count:
  "case main [NP 1 2, SB 1 356 6, KP 1, NP 2 1, NP 3 1, NP 4 1] of
     Inl e \<Rightarrow> False
   | Inr s \<Rightarrow>
       mem s (PAGE_COUNT + 3) = 3 \<and>
       mem s (get_address 3 0) = 4 \<and>
       print_page_table 3 s = Inr (s\<lparr>out := out s @ [TableHeader 3, TableLine 0 4]\<rparr>) \<and>
       mem s (get_address 3 100) = 6 \<and>
       mem s (PAGE_COUNT + 4) = 5 \<and>
       mem s (get_address 5 0) = 6 \<and>
       mem s 6 = 1 \<and>
       (case kill 3 s of
          Inl e \<Rightarrow> False
        | Inr s' \<Rightarrow> mem s' 6 = 0 \<and> mem s' (get_address 5 0) = 6)"
  by (simp add: run_simps)

text \<open>
  Claim C7, on a run in which every call is made on an active process with arguments in
  range. The byte 7 that process 1 stored at offset 50 of its data page 3 is still there
  when page 3 becomes the page table of process 3 (\<^verbatim>\<open>new_process\<close> does not clear the page
  it takes as a table), so \<^verbatim>\<open>kill(3)\<close> frees page 7, a data page of process 4, and
  \<^verbatim>\<open>new_process(5, 2)\<close> gets it again. Processes 4 and 5 are both fully created and both
  map the virtual address 256 to the physical address 1792; a store by process 4 there
  changes what process 5 loads from 0 to 9.
\<close>

theorem store_changes_load_of_other_process:
  "case main [NP 1 2, SB 1 306 7, KP 1, NP 2 1, NP 3 1, NP 4 2, KP 3, NP 5 2] of
     Inl e \<Rightarrow> False
   | Inr s \<Rightarrow>
       mem s (PAGE_COUNT + 4) = 5 \<and>
       map (\<lambda>v. mem s (get_address 5 v)) [0, 1] = [6, 7] \<and>
       mem s (PAGE_COUNT + 5) = 3 \<and>
       map (\<lambda>v. mem s (get_address 3 v)) [0, 1] = [4, 7] \<and>
       get_physical_address 4 256 s = Inr 1792 \<and>
       get_physical_address 5 256 s = Inr 1792 \<and>
       (case read_value 5 256 s of Inl e \<Rightarrow> False | Inr (b, s') \<Rightarrow> b = 0) \<and>
       (case store_value 4 256 9 s of
          Inl e \<Rightarrow> False
        | Inr s' \<Rightarrow>
            (case read_value 5 256 s' of Inl e \<Rightarrow> False | Inr (b, s'') \<Rightarrow> b = 9))"
  by (simp add: run_simps)

text \<open>
  Claim C8, on a run in which every call is made on an active process with arguments in
  range. The byte 66 that process 1 stored in its data page 3 is read as a page-table
  entry by \<^verbatim>\<open>kill(3)\<close>, whose \<^verbatim>\<open>deallocate_page(66)\<close> clears \<^verbatim>\<open>mem[66]\<close>, the page-table number
  of process 2. \<^verbatim>\<open>kill(2)\<close> then takes page 0 for the page table of process 2 and clears
  \<^verbatim>\<open>mem[0]\<close>, which was 1 since \<^verbatim>\<open>initialize_mem\<close>.
\<close>

theorem kill_clears_reserved_bitmap_byte:
  "(case initialize_mem startup of Inl e \<Rightarrow> False | Inr s \<Rightarrow> mem s 0 = 1) \<and>
   (case main [NP 1 2, SB 1 306 66, KP 1, NP 2 1, NP 3 1, KP 3] of
      Inl e \<Rightarrow> False
    | Inr s \<Rightarrow>
        mem s 0 = 1 \<and>
        mem s (PAGE_COUNT + 2) = 0 \<and>
        (case kill 2 s of Inl e \<Rightarrow> False | Inr s' \<Rightarrow> mem s' 0 = 0))"
  by (simp add: run_simps)

end
